theory Spec2Isabelle
  imports Complex_Main "HOL-Library.Product_Lexorder"
begin

section \<open>Text, characters and the runtime's Unicode tables\<close>

text \<open>
  A Python \<open>str\<close> is a sequence of Unicode code points, and the patterns of
  \<open>sec_notifications.py\<close> name code points beyond one byte (the em dash of the item
  pattern), so text is a list of code points. \<open>u\<close> turns an ASCII literal into text.
\<close>

type_synonym str = "nat list"

definition u :: "string \<Rightarrow> str" where
  "u s = map of_char s"

text \<open>
  Three tables of the interpreter's Unicode database are used by the program on code
  points beyond ASCII: the decimal digit value (behind \<open>\d\<close>, \<open>int\<close> and \<open>float\<close>),
  the full upper-case mapping of a code point (\<open>str.upper\<close>), and the lower-case mapping
  of the code point at a position of a string (\<open>str.lower\<close>, which looks at the
  neighbours of a capital sigma). They differ between interpreter versions, so they are
  a parameter \<open>db\<close> of every function that needs them; on ASCII the mappings are fixed
  and written out here.
\<close>

record unicode_db =
  decimal_of :: "nat \<Rightarrow> nat option"
  upper_of :: "nat \<Rightarrow> str"
  lower_of :: "str \<Rightarrow> nat \<Rightarrow> str"

text \<open>The database with nothing beyond ASCII; the concrete examples use it.\<close>

definition ascii_db :: unicode_db where
  "ascii_db = \<lparr>decimal_of = (\<lambda>c. None), upper_of = (\<lambda>c. [c]), lower_of = (\<lambda>s i. [s ! i])\<rparr>"

definition to_decimal :: "unicode_db \<Rightarrow> nat \<Rightarrow> nat option" where
  "to_decimal db c =
     (if c < 128 then (if 48 \<le> c \<and> c \<le> 57 then Some (c - 48) else None)
      else decimal_of db c)"

text \<open>\<open>\d\<close> of a \<open>str\<close> pattern: the code points with a decimal digit value.\<close>

definition is_digit :: "unicode_db \<Rightarrow> nat \<Rightarrow> bool" where
  "is_digit db c = (to_decimal db c \<noteq> None)"

text \<open>
  \<open>\s\<close> of a \<open>str\<close> pattern and the characters \<open>str.strip\<close> removes: the code points
  for which \<open>str.isspace\<close> holds.
\<close>

definition is_space :: "nat \<Rightarrow> bool" where
  "is_space c =
     ((9 \<le> c \<and> c \<le> 13) \<or> (28 \<le> c \<and> c \<le> 32) \<or> c = 133 \<or> c = 160 \<or> c = 5760
      \<or> (8192 \<le> c \<and> c \<le> 8202) \<or> c = 8232 \<or> c = 8233 \<or> c = 8239 \<or> c = 8287
      \<or> c = 12288)"

text \<open>
  A literal of a pattern compiled with \<open>re.IGNORECASE\<close>: \<open>p\<close> is the pattern's character
  in lower case, \<open>c\<close> the character of the text. Beyond the two ASCII cases, \<open>i\<close> also
  matches U+0130 and U+0131, \<open>s\<close> matches U+017F and \<open>k\<close> matches U+212A.
\<close>

definition match_ci :: "nat \<Rightarrow> nat \<Rightarrow> bool" where
  "match_ci p c =
     (c = p \<or> (97 \<le> p \<and> p \<le> 122 \<and> c + 32 = p)
      \<or> (p = 105 \<and> (c = 304 \<or> c = 305)) \<or> (p = 115 \<and> c = 383) \<or> (p = 107 \<and> c = 8490))"

definition ascii_upper :: "nat \<Rightarrow> nat" where
  "ascii_upper c = (if 97 \<le> c \<and> c \<le> 122 then c - 32 else c)"

definition ascii_lower :: "nat \<Rightarrow> nat" where
  "ascii_lower c = (if 65 \<le> c \<and> c \<le> 90 then c + 32 else c)"

definition str_upper :: "unicode_db \<Rightarrow> str \<Rightarrow> str" where
  "str_upper db s = concat (map (\<lambda>c. if c < 128 then [ascii_upper c] else upper_of db c) s)"

definition str_lower :: "unicode_db \<Rightarrow> str \<Rightarrow> str" where
  "str_lower db s =
     concat (map (\<lambda>i. if s ! i < 128 then [ascii_lower (s ! i)] else lower_of db s i)
                 [0..<length s])"

text \<open>\<open>s.strip()\<close>, \<open>s.startswith(p)\<close>, \<open>s.endswith(p)\<close> and \<open>p in s\<close>.\<close>

definition strip :: "str \<Rightarrow> str" where
  "strip s = rev (dropWhile is_space (rev (dropWhile is_space s)))"

definition startswith :: "str \<Rightarrow> str \<Rightarrow> bool" where
  "startswith s p = (take (length p) s = p)"



section \<open>The backtracking matcher of \<open>re\<close>\<close>

text \<open>
  Python's \<open>re\<close> matches by backtracking: a greedy repetition takes as many characters
  as it can and gives them back one by one while the rest of the pattern fails. Each
  construct is a function of the rest of the pattern (a continuation \<open>k\<close> on the
  remaining text), so a pattern of the source is the composition of its constructs in
  the order they are written. A match returns what its last continuation returns.
\<close>

fun star :: "(nat \<Rightarrow> bool) \<Rightarrow> (str \<Rightarrow> 'a option) \<Rightarrow> str \<Rightarrow> 'a option" where
  "star P k [] = k []"
| "star P k (c # cs) =
     (if P c then (case star P k cs of Some r \<Rightarrow> Some r | None \<Rightarrow> k (c # cs))
      else k (c # cs))"

fun plus :: "(nat \<Rightarrow> bool) \<Rightarrow> (str \<Rightarrow> 'a option) \<Rightarrow> str \<Rightarrow> 'a option" where
  "plus P k [] = None"
| "plus P k (c # cs) = (if P c then star P k cs else None)"

fun lit :: "nat \<Rightarrow> (str \<Rightarrow> 'a option) \<Rightarrow> str \<Rightarrow> 'a option" where
  "lit p k [] = None"
| "lit p k (c # cs) = (if c = p then k cs else None)"

fun lit_ci :: "str \<Rightarrow> (str \<Rightarrow> 'a option) \<Rightarrow> str \<Rightarrow> 'a option" where
  "lit_ci [] k s = k s"
| "lit_ci (p # ps) k [] = None"
| "lit_ci (p # ps) k (c # cs) = (if match_ci p c then lit_ci ps k cs else None)"

text \<open>An optional group \<open>(...)?\<close>: the group first, the empty match if it fails.\<close>

definition opt :: "((str \<Rightarrow> 'a option) \<Rightarrow> str \<Rightarrow> 'a option) \<Rightarrow> (str \<Rightarrow> 'a option)
    \<Rightarrow> str \<Rightarrow> 'a option" where
  "opt g k s = (case g k s of Some r \<Rightarrow> Some r | None \<Rightarrow> k s)"

text \<open>The text matched between two positions, each given by the text that remains.\<close>

definition between :: "str \<Rightarrow> str \<Rightarrow> str" where
  "between s1 s2 = take (length s1 - length s2) s1"

text \<open>\<open>re.search\<close>: the match at the leftmost position that has one.\<close>

fun re_search :: "(str \<Rightarrow> 'a option) \<Rightarrow> str \<Rightarrow> 'a option" where
  "re_search m [] = m []"
| "re_search m (c # cs) = (case m (c # cs) of Some g \<Rightarrow> Some g | None \<Rightarrow> re_search m cs)"

section \<open>The item extractor\<close>

text \<open>
  \<open>item\s*(\d+\.\d+)[:\s\-X]+([^\n]+)?\<close> with \<open>re.IGNORECASE\<close>, where \<open>X\<close> stands for
  the em dash U+2014 of the source, matched at the start of a text: group 1 and the text
  after the match.
\<close>

definition item_sep :: "nat \<Rightarrow> bool" where
  "item_sep c = (c = 58 \<or> is_space c \<or> c = 45 \<or> c = 8212)"

definition item_pattern :: "unicode_db \<Rightarrow> str \<Rightarrow> (str \<times> str) option" where
  "item_pattern db =
     lit_ci (u ''item'')
       (star is_space
         (\<lambda>s1. plus (is_digit db)
           (lit 46
             (plus (is_digit db)
               (\<lambda>s2. plus item_sep
                 (opt (plus (\<lambda>c. c \<noteq> 10))
                   (\<lambda>s3. Some (between s1 s2, s3))) s2))) s1))"


subsection \<open>What a match consumes\<close>

lemma star_consumes:
  "star P k s = Some r \<Longrightarrow> \<exists>pre s'. s = pre @ s' \<and> list_all P pre \<and> k s' = Some r"
proof (induction s)
  case Nil
  then show ?case by simp
next
  case (Cons c cs)
  show ?case
  proof (cases "P c \<and> star P k cs = Some r")
    case True
    with Cons.IH obtain pre s' where "cs = pre @ s'" "list_all P pre" "k s' = Some r"
      by blast
    with True have "c # cs = (c # pre) @ s' \<and> list_all P (c # pre) \<and> k s' = Some r"
      by simp
    then show ?thesis by blast
  next
    case False
    with Cons.prems have "k (c # cs) = Some r"
      by (auto split: if_splits option.splits)
    then have "c # cs = [] @ (c # cs) \<and> list_all P [] \<and> k (c # cs) = Some r"
      by simp
    then show ?thesis by blast
  qed
qed

lemma plus_consumes:
  assumes "plus P k s = Some r"
  shows "\<exists>pre s'. s = pre @ s' \<and> pre \<noteq> [] \<and> list_all P pre \<and> k s' = Some r"
proof (cases s)
  case Nil
  with assms show ?thesis by simp
next
  case (Cons c cs)
  with assms have c: "P c" and st: "star P k cs = Some r"
    by (simp_all split: if_splits)
  from star_consumes [OF st] obtain pre s'
    where "cs = pre @ s'" "list_all P pre" "k s' = Some r"
    by auto
  with Cons c have "s = (c # pre) @ s' \<and> c # pre \<noteq> [] \<and> list_all P (c # pre) \<and> k s' = Some r"
    by simp
  then show ?thesis by blast
qed

lemma lit_consumes: "lit p k s = Some r \<Longrightarrow> \<exists>s'. s = p # s' \<and> k s' = Some r"
  by (cases s) (auto split: if_splits)

lemma lit_ci_consumes:
  "lit_ci ps k s = Some r \<Longrightarrow>
   \<exists>pre s'. s = pre @ s' \<and> list_all2 match_ci ps pre \<and> k s' = Some r"
proof (induction ps k s rule: lit_ci.induct)
  case (1 k s)
  then show ?case by simp
next
  case (2 p ps k)
  then show ?case by simp
next
  case (3 p ps k c cs)
  then have c: "match_ci p c" and "lit_ci ps k cs = Some r"
    by (auto split: if_splits)
  with "3.IH" obtain pre s' where "cs = pre @ s'" "list_all2 match_ci ps pre" "k s' = Some r"
    by blast
  with c have "c # cs = (c # pre) @ s' \<and> list_all2 match_ci (p # ps) (c # pre) \<and> k s' = Some r"
    by simp
  then show ?case by blast
qed

lemma opt_consumes: "opt g k s = Some r \<Longrightarrow> g k s = Some r \<or> k s = Some r"
  by (auto simp: opt_def split: option.splits)

text \<open>
  A repetition whose continuation cannot fail never gives a character back, and one
  whose continuation fails on every character of the class has nothing to gain from
  giving one back: both stop after the longest run.
\<close>

lemma star_total:
  assumes "\<And>t. k t \<noteq> None"
  shows "star P k s = k (dropWhile P s)"
proof (induction s)
  case Nil
  show ?case by simp
next
  case (Cons c cs)
  from assms obtain r where "k (dropWhile P cs) = Some r"
    by fastforce
  with Cons.IH show ?case by simp
qed

lemma star_greedy:
  assumes "\<And>c cs. P c \<Longrightarrow> k (c # cs) = None"
  shows "star P k s = k (dropWhile P s)"
proof (induction s)
  case Nil
  show ?case by simp
next
  case (Cons c cs)
  show ?case
  proof (cases "P c")
    case True
    with assms have "k (c # cs) = None" by simp
    with True Cons.IH show ?thesis by (simp split: option.splits)
  next
    case False
    then show ?thesis by simp
  qed
qed


subsection \<open>The matches of the item pattern\<close>

lemma between_append: "between (xs @ ys) ys = xs"
  by (simp add: between_def)

lemma item_pattern_consumes:
  assumes "item_pattern db s = Some (num, rest)"
  shows "\<exists>pre ip fp. s = pre @ rest \<and> pre \<noteq> [] \<and> num = ip @ 46 # fp \<and> ip \<noteq> [] \<and> fp \<noteq> []
           \<and> list_all (is_digit db) ip \<and> list_all (is_digit db) fp"
proof -
  from lit_ci_consumes [OF assms [unfolded item_pattern_def]] obtain p0 s0
    where s: "s = p0 @ s0" and p0: "list_all2 match_ci (u ''item'') p0"
      and m0: "star is_space
         (\<lambda>s1. plus (is_digit db)
           (lit 46
             (plus (is_digit db)
               (\<lambda>s2. plus item_sep
                 (opt (plus (\<lambda>c. c \<noteq> 10))
                   (\<lambda>s3. Some (between s1 s2, s3))) s2))) s1) s0 = Some (num, rest)"
    by auto
  from star_consumes [OF m0] obtain w s1
    where s0: "s0 = w @ s1"
      and m1: "plus (is_digit db)
           (lit 46
             (plus (is_digit db)
               (\<lambda>s2. plus item_sep
                 (opt (plus (\<lambda>c. c \<noteq> 10))
                   (\<lambda>s3. Some (between s1 s2, s3))) s2))) s1 = Some (num, rest)"
    by auto
  from plus_consumes [OF m1] obtain ip sA
    where s1: "s1 = ip @ sA" and ip: "ip \<noteq> []" "list_all (is_digit db) ip"
      and m2: "lit 46
             (plus (is_digit db)
               (\<lambda>s2. plus item_sep
                 (opt (plus (\<lambda>c. c \<noteq> 10))
                   (\<lambda>s3. Some (between s1 s2, s3))) s2)) sA = Some (num, rest)"
    by auto
  from lit_consumes [OF m2] obtain sB
    where sA: "sA = 46 # sB"
      and m3: "plus (is_digit db)
               (\<lambda>s2. plus item_sep
                 (opt (plus (\<lambda>c. c \<noteq> 10))
                   (\<lambda>s3. Some (between s1 s2, s3))) s2) sB = Some (num, rest)"
    by auto
  from plus_consumes [OF m3] obtain fp s2
    where sB: "sB = fp @ s2" and fp: "fp \<noteq> []" "list_all (is_digit db) fp"
      and m4: "plus item_sep
                 (opt (plus (\<lambda>c. c \<noteq> 10))
                   (\<lambda>s3. Some (between s1 s2, s3))) s2 = Some (num, rest)"
    by auto
  from plus_consumes [OF m4] obtain sep sC
    where s2: "s2 = sep @ sC" and sep: "sep \<noteq> []"
      and m5: "opt (plus (\<lambda>c. c \<noteq> 10)) (\<lambda>s3. Some (between s1 s2, s3)) sC = Some (num, rest)"
    by auto
  have "\<exists>t. sC = t @ rest \<and> num = between s1 s2"
  proof -
    from opt_consumes [OF m5] show ?thesis
    proof
      assume "plus (\<lambda>c. c \<noteq> 10) (\<lambda>s3. Some (between s1 s2, s3)) sC = Some (num, rest)"
      from plus_consumes [OF this] show ?thesis by auto
    next
      assume "Some (between s1 s2, sC) = Some (num, rest)"
      then show ?thesis by auto
    qed
  qed
  then obtain t where sC: "sC = t @ rest" and num: "num = between s1 s2"
    by blast
  have "s1 = (ip @ 46 # fp) @ s2"
    using s1 sA sB by simp
  with num have n: "num = ip @ 46 # fp"
    by (simp only: between_append)
  have "length p0 = 4"
    using list_all2_lengthD [OF p0] by (simp add: u_def)
  then have "p0 @ w @ ip @ 46 # fp @ sep @ t \<noteq> []"
    by auto
  moreover have "s = (p0 @ w @ ip @ 46 # fp @ sep @ t) @ rest"
    using s s0 s1 sA sB s2 sC by simp
  ultimately show ?thesis
    using n ip fp by blast
qed

lemma item_pattern_shorter: "item_pattern db s = Some (num, rest) \<Longrightarrow> length rest < length s"
  using item_pattern_consumes [of db s num rest] by (auto simp: neq_Nil_conv)

text \<open>
  \<open>item_pattern.finditer(content)\<close>: the matches from left to right, the search going
  on where the last match ended. A match of this pattern is never empty, which is what
  the loop's termination rests on. Each match is given as group 1 and the text after it.
\<close>

function item_finditer :: "unicode_db \<Rightarrow> str \<Rightarrow> (str \<times> str) list" where
  "item_finditer db s =
     (case item_pattern db s of
        Some (num, rest) \<Rightarrow> (num, rest) # item_finditer db rest
      | None \<Rightarrow> (case s of [] \<Rightarrow> [] | c # cs \<Rightarrow> item_finditer db cs))"
  by pat_completeness auto
termination
  by (relation "measure (\<lambda>(db, s). length s)") (auto simp: item_pattern_shorter)

declare item_finditer.simps [simp del]



subsection \<open>The context snippet\<close>

text \<open>
  The three patterns of the clean-up, \<open><[^>]+>\<close>, \<open><[^>]*$\<close> and \<open>\s+\<close>, each matched
  at the start of a text and returning the text after the match. Without \<open>re.MULTILINE\<close>,
  \<open>$\<close> holds at the end of the text and before a line feed that ends it.
\<close>

definition tag_pattern :: "str \<Rightarrow> str option" where
  "tag_pattern = lit 60 (plus (\<lambda>c. c \<noteq> 62) (lit 62 Some))"

definition at_end :: "str \<Rightarrow> bool" where
  "at_end s = (s = [] \<or> s = [10])"

definition partial_tag_pattern :: "str \<Rightarrow> str option" where
  "partial_tag_pattern = lit 60 (star (\<lambda>c. c \<noteq> 62) (\<lambda>s. if at_end s then Some s else None))"

definition space_pattern :: "str \<Rightarrow> str option" where
  "space_pattern = plus is_space Some"

lemma tag_pattern_shorter: "tag_pattern s = Some r \<Longrightarrow> length r < length s"
proof -
  assume a: "tag_pattern s = Some r"
  from lit_consumes [OF a [unfolded tag_pattern_def]] obtain s1
    where "s = 60 # s1" "plus (\<lambda>c. c \<noteq> 62) (lit 62 Some) s1 = Some r"
    by auto
  moreover from plus_consumes [OF this(2)] obtain pre s2
    where "s1 = pre @ s2" "lit 62 Some s2 = Some r"
    by auto
  moreover from lit_consumes [OF this(2)] have "s2 = 62 # r"
    by auto
  ultimately show ?thesis by simp
qed

lemma partial_tag_pattern_shorter: "partial_tag_pattern s = Some r \<Longrightarrow> length r < length s"
proof -
  assume a: "partial_tag_pattern s = Some r"
  from lit_consumes [OF a [unfolded partial_tag_pattern_def]] obtain s1
    where "s = 60 # s1" "star (\<lambda>c. c \<noteq> 62) (\<lambda>s. if at_end s then Some s else None) s1 = Some r"
    by auto
  moreover from star_consumes [OF this(2)] obtain pre s2
    where "s1 = pre @ s2" "(if at_end s2 then Some s2 else None) = Some r"
    by auto
  ultimately show ?thesis by (auto split: if_splits)
qed

lemma space_pattern_shorter: "space_pattern s = Some r \<Longrightarrow> length r < length s"
proof -
  assume a: "space_pattern s = Some r"
  from plus_consumes [OF a [unfolded space_pattern_def]] show ?thesis
    by (auto simp: neq_Nil_conv)
qed

text \<open>
  \<open>re.sub(pattern, " ", context)\<close> for each of them: every match from left to right is
  replaced by one space, the rest is copied. None of the patterns matches the empty text.
\<close>

function sub_tags :: "str \<Rightarrow> str" where
  "sub_tags s =
     (case tag_pattern s of
        Some r \<Rightarrow> 32 # sub_tags r
      | None \<Rightarrow> (case s of [] \<Rightarrow> [] | c # cs \<Rightarrow> c # sub_tags cs))"
  by pat_completeness auto
termination
  by (relation "measure length") (auto simp: tag_pattern_shorter)

declare sub_tags.simps [simp del]

function sub_partial_tag :: "str \<Rightarrow> str" where
  "sub_partial_tag s =
     (case partial_tag_pattern s of
        Some r \<Rightarrow> 32 # sub_partial_tag r
      | None \<Rightarrow> (case s of [] \<Rightarrow> [] | c # cs \<Rightarrow> c # sub_partial_tag cs))"
  by pat_completeness auto
termination
  by (relation "measure length") (auto simp: partial_tag_pattern_shorter)

declare sub_partial_tag.simps [simp del]

function sub_spaces :: "str \<Rightarrow> str" where
  "sub_spaces s =
     (case space_pattern s of
        Some r \<Rightarrow> 32 # sub_spaces r
      | None \<Rightarrow> (case s of [] \<Rightarrow> [] | c # cs \<Rightarrow> c # sub_spaces cs))"
  by pat_completeness auto
termination
  by (relation "measure length") (auto simp: space_pattern_shorter)

declare sub_spaces.simps [simp del]

text \<open>
  Lines 250 to 257 of the source, from the raw 500-character window to the snippet.
\<close>

definition clean_context :: "str \<Rightarrow> str" where
  "clean_context context0 =
     (let context1 = sub_tags context0;
          context2 = sub_partial_tag context1;
          context3 = strip (sub_spaces context2)
      in if length context3 > 300 then take 300 context3 @ u ''...'' else context3)"



subsection \<open>The sort key\<close>

text \<open>
  What the program can raise: \<open>requests.HTTPError\<close> with the status of the response (from
  \<open>raise_for_status\<close>), any other exception of \<open>requests\<close> while the request is made, the
  exception of \<open>resp.json()\<close> on a body that is not JSON, and \<open>ValueError\<close>.
\<close>

datatype error = HTTPError nat | RequestError | FormatError | ValueError

text \<open>
  \<open>float(x.item)\<close>. A Python \<open>float\<close> is an IEEE 754 double; the values that can arise
  here are the non-negative finite doubles, written \<open>(False, q)\<close> with \<open>q\<close> the rational
  number the double stands for, and positive infinity, written \<open>(True, 0)\<close>; the order of
  the pairs is the order of the doubles. \<open>to_double\<close> rounds a non-negative rational
  to the nearest double, ties to the even mantissa, as the conversion of a decimal
  numeral does: 53 bits of mantissa, the smallest exponent shared by the subnormal
  numbers, infinity when the rounded value reaches \<open>2 ^ 1024\<close>.
\<close>

type_synonym float = "bool \<times> rat"

fun bit_length :: "nat \<Rightarrow> nat" where
  "bit_length n = (if n = 0 then 0 else Suc (bit_length (n div 2)))"

definition binade :: "rat \<Rightarrow> int" where
  "binade q =
     (let (a, b) = quotient_of q;
          e = int (bit_length (nat a)) - int (bit_length (nat b))
      in if 2 powi e \<le> q then e else e - 1)"

definition round_half_even :: "rat \<Rightarrow> int" where
  "round_half_even x =
     (let f = \<lfloor>x\<rfloor>; d = x - of_int f
      in if d < 1 / 2 then f else if 1 / 2 < d then f + 1 else if even f then f else f + 1)"

definition to_double :: "rat \<Rightarrow> float" where
  "to_double q =
     (if q = 0 then (False, 0)
      else let e = max (binade q) (- 1022);
               ulp = 2 powi (e - 52);
               r = of_int (round_half_even (q / ulp)) * ulp
           in if 2 powi 1024 \<le> r then (True, 0) else (False, r))"

text \<open>
  The numerals the model of \<open>float\<close> accepts are the unsigned decimal numerals without
  exponent: digits, at most one dot, at least one digit. Everything else is reported as
  \<open>ValueError\<close>, which includes spellings the interpreter accepts (a sign, an exponent,
  underscores, surrounding blanks, \<open>inf\<close>, \<open>nan\<close>): the model of \<open>float\<close> fails at least
  where the interpreter does.
\<close>

fun decimal_value :: "unicode_db \<Rightarrow> nat \<Rightarrow> str \<Rightarrow> nat option" where
  "decimal_value db acc [] = Some acc"
| "decimal_value db acc (c # cs) =
     (case to_decimal db c of None \<Rightarrow> None | Some d \<Rightarrow> decimal_value db (10 * acc + d) cs)"

definition py_float :: "unicode_db \<Rightarrow> str \<Rightarrow> error + float" where
  "py_float db s =
     (let ip = takeWhile (\<lambda>c. c \<noteq> 46) s;
          fp = drop 1 (dropWhile (\<lambda>c. c \<noteq> 46) s)
      in if ip = [] \<and> fp = [] then Inl ValueError
         else (case (decimal_value db 0 ip, decimal_value db 0 fp) of
                 (Some a, Some b) \<Rightarrow> Inr (to_double (of_nat a + of_nat b / 10 ^ length fp))
               | _ \<Rightarrow> Inl ValueError))"




subsection \<open>\<open>extract_8k_items\<close>\<close>

record filing_item =
  item :: str
  description :: str
  context_snippet :: str
  is_priority :: bool

definition ITEM_DESCRIPTIONS :: "(str \<times> str) list" where
  "ITEM_DESCRIPTIONS =
    [(u ''1.01'', u ''Entry into Material Agreement''),
     (u ''1.02'', u ''Termination of Material Agreement''),
     (u ''1.03'', u ''Bankruptcy or Receivership''),
     (u ''2.01'', u ''Acquisition/Disposition of Assets''),
     (u ''2.02'', u ''Results of Operations (Earnings)''),
     (u ''2.03'', u ''Creation of Direct Financial Obligation''),
     (u ''2.04'', u ''Triggering Events (Acceleration)''),
     (u ''2.05'', u ''Exit/Disposal Activities (Restructuring)''),
     (u ''2.06'', u ''Material Impairments''),
     (u ''3.01'', u ''Delisting or Transfer Notice''),
     (u ''3.02'', u ''Unregistered Sales of Equity''),
     (u ''3.03'', u ''Material Modification of Rights''),
     (u ''4.01'', u ''Change in Accountant''),
     (u ''4.02'', u ''Non-Reliance on Financial Statements''),
     (u ''5.01'', u ''Change in Control''),
     (u ''5.02'', u ''Departure/Appointment of Directors or Officers''),
     (u ''5.03'', u ''Amendments to Articles/Bylaws''),
     (u ''5.04'', u ''Temporary Suspension of Trading''),
     (u ''5.05'', u ''Amendments to Code of Ethics''),
     (u ''5.06'', u ''Change in Shell Company Status''),
     (u ''5.07'', u ''Shareholder Vote Submission''),
     (u ''5.08'', u ''Shareholder Nominations''),
     (u ''7.01'', u ''Regulation FD Disclosure''),
     (u ''8.01'', u ''Other Events''),
     (u ''9.01'', u ''Financial Statements and Exhibits'')]"

definition PRIORITY_ITEMS :: "str set" where
  "PRIORITY_ITEMS = {u ''5.02'', u ''5.01'', u ''1.01'', u ''2.05''}"

text \<open>
  The entry the loop body builds for one match (lines 245 to 262): \<open>rest\<close> is the text
  after the match, so the window \<open>content[start_pos:end_pos]\<close> is its first 500
  characters, or all of it when it is shorter.
\<close>

definition make_item :: "str \<Rightarrow> str \<Rightarrow> filing_item" where
  "make_item item_num rest =
     \<lparr>item = item_num,
      description = (case map_of ITEM_DESCRIPTIONS item_num of
                       Some d \<Rightarrow> d | None \<Rightarrow> u ''Other Item''),
      context_snippet = clean_context (take 500 rest),
      is_priority = (item_num \<in> PRIORITY_ITEMS)\<rparr>"

text \<open>The loop over the matches, with its two variables \<open>items_found\<close> and \<open>seen\<close>.\<close>

fun collect_items :: "(str \<times> str) list \<Rightarrow> filing_item list \<Rightarrow> str set \<Rightarrow> filing_item list" where
  "collect_items [] items_found seen = items_found"
| "collect_items ((item_num, rest) # ms) items_found seen =
     (if item_num \<in> seen then collect_items ms items_found seen
      else collect_items ms (items_found @ [make_item item_num rest]) (insert item_num seen))"

text \<open>
  \<open>xs.sort(key=f)\<close>: the keys are computed first, one call of \<open>f\<close> per element and the
  first exception ends the sort; then the elements are put in ascending order of their
  keys, elements with equal keys staying in the order they had.
\<close>

fun sort_keys :: "('a \<Rightarrow> error + 'k) \<Rightarrow> 'a list \<Rightarrow> error + ('k \<times> 'a) list" where
  "sort_keys f [] = Inr []"
| "sort_keys f (x # xs) =
     (case f x of
        Inl e \<Rightarrow> Inl e
      | Inr k \<Rightarrow> (case sort_keys f xs of Inl e \<Rightarrow> Inl e | Inr kxs \<Rightarrow> Inr ((k, x) # kxs)))"

definition list_sort :: "('a \<Rightarrow> error + 'k::linorder) \<Rightarrow> 'a list \<Rightarrow> error + 'a list" where
  "list_sort f xs =
     (case sort_keys f xs of Inl e \<Rightarrow> Inl e | Inr kxs \<Rightarrow> Inr (map snd (sort_key fst kxs)))"

definition extract_8k_items :: "unicode_db \<Rightarrow> str \<Rightarrow> error + filing_item list" where
  "extract_8k_items db content =
     (if content = [] then Inr []
      else list_sort (\<lambda>x. py_float db (item x))
             (collect_items (item_finditer db content) [] {}))"


subsection \<open>Item numbers and their sort keys\<close>

lemma item_finditer_matches:
  "(num, rest) \<in> set (item_finditer db s) \<Longrightarrow> \<exists>s'. item_pattern db s' = Some (num, rest)"
proof (induction db s rule: item_finditer.induct)
  case (1 db s)
  show ?case
  proof (cases "item_pattern db s")
    case None
    with "1.prems" have "(num, rest) \<in> set (case s of [] \<Rightarrow> [] | c # cs \<Rightarrow> item_finditer db cs)"
      by (simp add: item_finditer.simps [of db s])
    then obtain c cs where s: "s = c # cs" and "(num, rest) \<in> set (item_finditer db cs)"
      by (cases s) auto
    with "1.IH"(1) [OF None s] show ?thesis by blast
  next
    case (Some m)
    obtain n r where m: "m = (n, r)" by (cases m)
    with "1.prems" Some have "(num, rest) = (n, r) \<or> (num, rest) \<in> set (item_finditer db r)"
      by (auto simp: item_finditer.simps [of db s])
    then show ?thesis
    proof
      assume "(num, rest) = (n, r)"
      with Some m show ?thesis by blast
    next
      assume "(num, rest) \<in> set (item_finditer db r)"
      with "1.IH"(2) [OF Some m [symmetric]] show ?thesis by blast
    qed
  qed
qed

lemma not_digit_dot: "\<not> is_digit db 46"
  by (simp add: is_digit_def to_decimal_def)

lemma decimal_value_digits:
  "list_all (is_digit db) s \<Longrightarrow> \<exists>n. decimal_value db acc s = Some n"
  by (induction s arbitrary: acc) (auto simp: is_digit_def)

lemma py_float_item_number:
  assumes "ip \<noteq> []" "list_all (is_digit db) ip" "list_all (is_digit db) fp"
  shows "\<exists>k. py_float db (ip @ 46 # fp) = Inr k"
proof -
  have nd: "\<forall>c \<in> set ip. c \<noteq> 46"
    using assms(2) not_digit_dot [of db] by (auto simp: list_all_iff)
  then have tw: "takeWhile (\<lambda>c. c \<noteq> 46) (ip @ 46 # fp) = ip"
    by (simp add: takeWhile_append2)
  from nd have dw: "dropWhile (\<lambda>c. c \<noteq> 46) (ip @ 46 # fp) = 46 # fp"
    by (simp add: dropWhile_append2)
  from decimal_value_digits [OF assms(2)] obtain a where a: "decimal_value db 0 ip = Some a"
    by blast
  from decimal_value_digits [OF assms(3)] obtain b where b: "decimal_value db 0 fp = Some b"
    by blast
  show ?thesis
    by (simp add: py_float_def tw dw a b assms(1))
qed

lemma sort_keys_Inr:
  "sort_keys f xs = Inr kxs \<Longrightarrow> map snd kxs = xs \<and> (\<forall>(k, x) \<in> set kxs. f x = Inr k)"
  by (induction xs arbitrary: kxs) (auto split: sum.splits)

lemma sort_keys_total:
  "(\<And>x. x \<in> set xs \<Longrightarrow> \<exists>k. f x = Inr k) \<Longrightarrow> \<exists>kxs. sort_keys f xs = Inr kxs"
proof (induction xs)
  case Nil
  show ?case by simp
next
  case (Cons x xs)
  from Cons.prems obtain k where "f x = Inr k" by fastforce
  moreover from Cons obtain kxs where "sort_keys f xs = Inr kxs" by fastforce
  ultimately show ?case by simp
qed

lemma list_sort_Inr:
  assumes "list_sort f xs = Inr ys"
  shows "set ys = set xs" and "distinct (map g xs) \<Longrightarrow> distinct (map g ys)"
    and "\<exists>ks. map f ys = map Inr ks \<and> sorted ks"
proof -
  from assms obtain kxs where kxs: "sort_keys f xs = Inr kxs"
    and ys: "ys = map snd (sort_key fst kxs)"
    by (auto simp: list_sort_def split: sum.splits)
  from sort_keys_Inr [OF kxs] have xs: "map snd kxs = xs"
    and keys: "\<forall>(k, x) \<in> set kxs. f x = Inr k"
    by auto
  have "set ys = snd ` set kxs"
    using ys by simp
  also have "\<dots> = set xs"
    using xs by (metis set_map)
  finally show "set ys = set xs" .
  show "distinct (map g ys)" if "distinct (map g xs)"
  proof -
    from that xs have "distinct (map (g \<circ> snd) kxs)"
      by (metis map_map)
    then have "distinct kxs \<and> inj_on (g \<circ> snd) (set kxs)"
      by (simp add: distinct_map)
    then have "distinct (map (g \<circ> snd) (sort_key fst kxs))"
      by (simp add: distinct_map)
    then show ?thesis
      using ys by simp
  qed
  have "map f ys = map Inr (map fst (sort_key fst kxs))"
    using ys keys by auto
  moreover have "sorted (map fst (sort_key fst kxs))"
    by simp
  ultimately show "\<exists>ks. map f ys = map Inr ks \<and> sorted ks"
    by blast
qed



subsection \<open>The loop keeps the first match of each item number\<close>

lemma item_make_item [simp]: "item (make_item n r) = n"
  by (simp add: make_item_def)

lemma collect_items_numbers:
  "seen = item ` set acc \<Longrightarrow>
   set (map item (collect_items ms acc seen)) = item ` set acc \<union> fst ` set ms"
proof (induction ms acc seen rule: collect_items.induct)
  case (1 items_found seen)
  then show ?case by simp
next
  case (2 item_num rest ms items_found seen)
  show ?case
  proof (cases "item_num \<in> seen")
    case True
    with "2.IH"(1) [OF True "2.prems"] "2.prems" show ?thesis by auto
  next
    case False
    from "2.prems" have "insert item_num seen = item ` set (items_found @ [make_item item_num rest])"
      by auto
    with "2.IH"(2) [OF False] False show ?thesis by auto
  qed
qed

lemma collect_items_distinct:
  "seen = item ` set acc \<Longrightarrow> distinct (map item acc) \<Longrightarrow>
   distinct (map item (collect_items ms acc seen))"
proof (induction ms acc seen rule: collect_items.induct)
  case (1 items_found seen)
  then show ?case by simp
next
  case (2 item_num rest ms items_found seen)
  show ?case
  proof (cases "item_num \<in> seen")
    case True
    with "2.IH"(1) [OF True "2.prems"] show ?thesis by simp
  next
    case False
    from "2.prems" have s: "insert item_num seen = item ` set (items_found @ [make_item item_num rest])"
      by auto
    from "2.prems" False have "distinct (map item (items_found @ [make_item item_num rest]))"
      by auto
    with "2.IH"(2) [OF False s] False show ?thesis by simp
  qed
qed

lemma collect_items_first:
  "seen = item ` set acc \<Longrightarrow> x \<in> set (collect_items ms acc seen) \<Longrightarrow>
   x \<in> set acc \<or>
     (item x \<notin> seen \<and>
      (\<exists>rest. find (\<lambda>m. fst m = item x) ms = Some (item x, rest) \<and> x = make_item (item x) rest))"
proof (induction ms acc seen rule: collect_items.induct)
  case (1 items_found seen)
  then show ?case by simp
next
  case (2 item_num rest ms items_found seen)
  show ?case
  proof (cases "item_num \<in> seen")
    case True
    with "2.prems" have "x \<in> set (collect_items ms items_found seen)" by simp
    from "2.IH"(1) [OF True "2.prems"(1) this] True show ?thesis by auto
  next
    case False
    from "2.prems" have s: "insert item_num seen = item ` set (items_found @ [make_item item_num rest])"
      by auto
    from "2.prems" False
    have "x \<in> set (collect_items ms (items_found @ [make_item item_num rest]) (insert item_num seen))"
      by simp
    from "2.IH"(2) [OF False s this] False show ?thesis by auto
  qed
qed



subsection \<open>Results about \<open>extract_8k_items\<close>\<close>

lemma item_finditer_Nil [simp]: "item_finditer db [] = []"
  by (simp add: item_finditer.simps [of db "[]"] item_pattern_def u_def)

lemma extract_8k_items_eq:
  "extract_8k_items db content =
     list_sort (\<lambda>x. py_float db (item x)) (collect_items (item_finditer db content) [] {})"
  by (simp add: extract_8k_items_def list_sort_def)

lemma item_finditer_numbers:
  assumes "(num, rest) \<in> set (item_finditer db content)"
  shows "\<exists>ip fp. num = ip @ 46 # fp \<and> ip \<noteq> [] \<and> fp \<noteq> [] \<and> list_all (is_digit db) (ip @ fp)
           \<and> (\<exists>k. py_float db num = Inr k)"
proof -
  from item_finditer_matches [OF assms] obtain s' where "item_pattern db s' = Some (num, rest)"
    by blast
  from item_pattern_consumes [OF this] obtain ip fp
    where n: "num = ip @ 46 # fp" "ip \<noteq> []" "fp \<noteq> []"
      and d: "list_all (is_digit db) ip" "list_all (is_digit db) fp"
    by blast
  from py_float_item_number [OF n(2) d] n(1) have "\<exists>k. py_float db num = Inr k"
    by simp
  with n d show ?thesis by auto
qed

lemma extract_8k_items_total: "\<exists>items. extract_8k_items db content = Inr items"
proof -
  let ?found = "collect_items (item_finditer db content) [] {}"
  have "\<exists>k. py_float db (item x) = Inr k" if "x \<in> set ?found" for x
  proof -
    from that have "item x \<in> set (map item ?found)" by simp
    then have "item x \<in> fst ` set (item_finditer db content)"
      using collect_items_numbers [of "{}" "[]" "item_finditer db content"] by simp
    then obtain rest where "(item x, rest) \<in> set (item_finditer db content)"
      by auto
    from item_finditer_numbers [OF this] show ?thesis by blast
  qed
  from sort_keys_total [of ?found "\<lambda>x. py_float db (item x)", OF this]
  show ?thesis
    by (auto simp: extract_8k_items_eq list_sort_def)
qed

text \<open>Evaluating the search on a given text, one position at a time.\<close>

lemma item_finditer_Some:
  "item_pattern db s = Some (n, r) \<Longrightarrow> item_finditer db s = (n, r) # item_finditer db r"
  by (simp add: item_finditer.simps [of db s])

lemma item_finditer_None:
  "item_pattern db (c # cs) = None \<Longrightarrow> item_finditer db (c # cs) = item_finditer db cs"
  by (simp add: item_finditer.simps [of db "c # cs"])

lemmas re_eval = u_def match_ci_def is_space_def is_digit_def to_decimal_def item_sep_def
  opt_def between_def

lemma item_finditer_example:
  "item_finditer db
     (u ''Item 5.02: A'' @ [10] @ u ''first'' @ [10] @ u ''Item 1.01: B'' @ [10] @ u ''second''
        @ [10] @ u ''item 5.02 - C'' @ [10] @ u ''third'') =
   [(u ''5.02'', [10] @ u ''first'' @ [10] @ u ''Item 1.01: B'' @ [10] @ u ''second'' @ [10]
                  @ u ''item 5.02 - C'' @ [10] @ u ''third''),
    (u ''1.01'', [10] @ u ''second'' @ [10] @ u ''item 5.02 - C'' @ [10] @ u ''third''),
    (u ''5.02'', [10] @ u ''third'')]"
  by (simp add: item_finditer_Some item_finditer_None item_pattern_def re_eval)

text \<open>
  C10. Every item number the pattern captures is one or more digits, a dot, one or more
  digits; \<open>float\<close> is defined on it; and \<open>extract_8k_items\<close> returns a list, without an
  exception, on every text.
\<close>

theorem extract_8k_items_never_fails:
  "(\<forall>(num, rest) \<in> set (item_finditer db content).
      \<exists>ip fp. num = ip @ 46 # fp \<and> ip \<noteq> [] \<and> fp \<noteq> [] \<and> list_all (is_digit db) (ip @ fp)
        \<and> (\<exists>k. py_float db num = Inr k))
   \<and> (\<exists>items. extract_8k_items db content = Inr items)"
  using item_finditer_numbers [of _ _ db content] extract_8k_items_total [of db content]
  by blast

theorem extract_8k_items_never_fails_witness:
  "item_finditer ascii_db
     (u ''Item 5.02: A'' @ [10] @ u ''first'' @ [10] @ u ''Item 1.01: B'' @ [10] @ u ''second''
        @ [10] @ u ''item 5.02 - C'' @ [10] @ u ''third'') \<noteq> []
   \<and> (\<exists>k. py_float ascii_db (u ''5.02'') = Inr k)
   \<and> (\<exists>k. py_float ascii_db (u ''1.01'') = Inr k)
   \<and> (\<exists>items. extract_8k_items ascii_db
         (u ''Item 5.02: A'' @ [10] @ u ''first'' @ [10] @ u ''Item 1.01: B'' @ [10] @ u ''second''
            @ [10] @ u ''item 5.02 - C'' @ [10] @ u ''third'') = Inr items)"
  using extract_8k_items_never_fails [of ascii_db
      "u ''Item 5.02: A'' @ [10] @ u ''first'' @ [10] @ u ''Item 1.01: B'' @ [10] @ u ''second''
        @ [10] @ u ''item 5.02 - C'' @ [10] @ u ''third''"]
  unfolding item_finditer_example
  by auto

text \<open>
  C1, as the code has it. The list \<open>extract_8k_items\<close> returns has one entry for each item
  number the search matched and no two entries with the same number; each entry is the
  one built from the first match that the search, going from left to right and resuming
  where the last match ended, finds for its number (its snippet comes from the text
  after that match); and the list is in ascending order of \<open>float\<close> of the item numbers.
  The first match of the search is not always the first place in the text where the
  heading is written: see \<open>first_occurrence_swallowed_counterexample\<close> below.
\<close>

theorem extract_8k_items_unique_first_sorted:
  "\<exists>items. extract_8k_items db content = Inr items
     \<and> distinct (map item items)
     \<and> item ` set items = fst ` set (item_finditer db content)
     \<and> (\<forall>x \<in> set items. \<exists>rest.
           find (\<lambda>m. fst m = item x) (item_finditer db content) = Some (item x, rest)
           \<and> x = make_item (item x) rest)
     \<and> (\<exists>keys. map (\<lambda>x. py_float db (item x)) items = map Inr keys \<and> sorted keys)"
proof -
  let ?ms = "item_finditer db content"
  let ?found = "collect_items ?ms [] {}"
  from extract_8k_items_total obtain items where items: "extract_8k_items db content = Inr items"
    by blast
  then have srt: "list_sort (\<lambda>x. py_float db (item x)) ?found = Inr items"
    by (simp add: extract_8k_items_eq)
  note s = list_sort_Inr [OF srt]
  have "distinct (map item ?found)"
    by (rule collect_items_distinct) simp_all
  then have 1: "distinct (map item items)"
    by (rule s(2))
  have "set (map item ?found) = fst ` set ?ms"
    using collect_items_numbers [of "{}" "[]" ?ms] by simp
  with s(1) have 2: "item ` set items = fst ` set ?ms"
    by simp
  have 3: "\<exists>rest. find (\<lambda>m. fst m = item x) ?ms = Some (item x, rest) \<and> x = make_item (item x) rest"
    if "x \<in> set items" for x
  proof -
    from that s(1) have "x \<in> set ?found" by simp
    from collect_items_first [OF _ this] show ?thesis by simp
  qed
  from items 1 2 3 s(3) show ?thesis by blast
qed

theorem extract_8k_items_unique_first_sorted_witness:
  "\<exists>items. extract_8k_items ascii_db
       (u ''Item 5.02: A'' @ [10] @ u ''first'' @ [10] @ u ''Item 1.01: B'' @ [10] @ u ''second''
          @ [10] @ u ''item 5.02 - C'' @ [10] @ u ''third'') = Inr items
     \<and> distinct (map item items)
     \<and> item ` set items = {u ''5.02'', u ''1.01''}
     \<and> (\<forall>x \<in> set items.
           x = make_item (u ''5.02'') ([10] @ u ''first'' @ [10] @ u ''Item 1.01: B'' @ [10]
                  @ u ''second'' @ [10] @ u ''item 5.02 - C'' @ [10] @ u ''third'')
         \<or> x = make_item (u ''1.01'') ([10] @ u ''second'' @ [10] @ u ''item 5.02 - C'' @ [10]
                  @ u ''third''))
     \<and> (\<exists>keys. map (\<lambda>x. py_float ascii_db (item x)) items = map Inr keys \<and> sorted keys)"
proof -
  let ?c = "u ''Item 5.02: A'' @ [10] @ u ''first'' @ [10] @ u ''Item 1.01: B'' @ [10] @ u ''second''
          @ [10] @ u ''item 5.02 - C'' @ [10] @ u ''third''"
  from extract_8k_items_unique_first_sorted [of ascii_db ?c]
  obtain items where e: "extract_8k_items ascii_db ?c = Inr items"
    and d: "distinct (map item items)"
    and n: "item ` set items = fst ` set (item_finditer ascii_db ?c)"
    and f: "\<forall>x \<in> set items. \<exists>rest.
           find (\<lambda>m. fst m = item x) (item_finditer ascii_db ?c) = Some (item x, rest)
           \<and> x = make_item (item x) rest"
    and k: "\<exists>keys. map (\<lambda>x. py_float ascii_db (item x)) items = map Inr keys \<and> sorted keys"
    by blast
  from n have n': "item ` set items = {u ''5.02'', u ''1.01''}"
    unfolding item_finditer_example by auto
  have "x = make_item (u ''5.02'') ([10] @ u ''first'' @ [10] @ u ''Item 1.01: B'' @ [10]
                  @ u ''second'' @ [10] @ u ''item 5.02 - C'' @ [10] @ u ''third'')
         \<or> x = make_item (u ''1.01'') ([10] @ u ''second'' @ [10] @ u ''item 5.02 - C'' @ [10]
                  @ u ''third'')" if x: "x \<in> set items" for x
  proof -
    from f x obtain rest
      where r: "find (\<lambda>m. fst m = item x) (item_finditer ascii_db ?c) = Some (item x, rest)"
        and m: "x = make_item (item x) rest"
      by blast
    from x n' have "item x = u ''5.02'' \<or> item x = u ''1.01''"
      by blast
    then show ?thesis
    proof
      assume i: "item x = u ''5.02''"
      with r have "rest = [10] @ u ''first'' @ [10] @ u ''Item 1.01: B'' @ [10]
                  @ u ''second'' @ [10] @ u ''item 5.02 - C'' @ [10] @ u ''third''"
        unfolding item_finditer_example by simp
      with m i show ?thesis by simp
    next
      assume i: "item x = u ''1.01''"
      with r have "rest = [10] @ u ''second'' @ [10] @ u ''item 5.02 - C'' @ [10] @ u ''third''"
        unfolding item_finditer_example by (simp add: u_def)
      with m i show ?thesis by simp
    qed
  qed
  with e d n' k show ?thesis by blast
qed

subsection \<open>The snippet's length, and when a heading is found\<close>

lemma clean_context_bound:
  "\<exists>body. length body \<le> 300 \<and> (clean_context w = body \<or> clean_context w = body @ u ''...'')"
proof -
  let ?c = "strip (sub_spaces (sub_partial_tag (sub_tags w)))"
  show ?thesis
  proof (cases "300 < length ?c")
    case True
    then have "length (take 300 ?c) \<le> 300 \<and> clean_context w = take 300 ?c @ u ''...''"
      by (simp add: clean_context_def Let_def)
    then show ?thesis by blast
  next
    case False
    then have "length ?c \<le> 300 \<and> clean_context w = ?c"
      by (simp add: clean_context_def Let_def)
    then show ?thesis by blast
  qed
qed

lemma clean_context_length: "length (clean_context w) \<le> 303"
proof -
  from clean_context_bound [of w] obtain body
    where "length body \<le> 300" "clean_context w = body \<or> clean_context w = body @ u ''...''"
    by blast
  then show ?thesis by (auto simp: u_def)
qed

lemma extract_8k_items_made:
  assumes "extract_8k_items db content = Inr items" "x \<in> set items"
  shows "\<exists>rest. find (\<lambda>m. fst m = item x) (item_finditer db content) = Some (item x, rest)
           \<and> x = make_item (item x) rest"
proof -
  from assms(1) have srt: "list_sort (\<lambda>x. py_float db (item x))
      (collect_items (item_finditer db content) [] {}) = Inr items"
    by (simp add: extract_8k_items_eq)
  from list_sort_Inr(1) [OF srt] assms(2)
  have "x \<in> set (collect_items (item_finditer db content) [] {})" by simp
  from collect_items_first [OF _ this] show ?thesis by simp
qed

lemma extract_8k_items_numbers:
  assumes "extract_8k_items db content = Inr items"
  shows "item ` set items = fst ` set (item_finditer db content)"
proof -
  from assms have srt: "list_sort (\<lambda>x. py_float db (item x))
      (collect_items (item_finditer db content) [] {}) = Inr items"
    by (simp add: extract_8k_items_eq)
  from list_sort_Inr(1) [OF srt] collect_items_numbers [of "{}" "[]" "item_finditer db content"]
  show ?thesis by simp
qed

text \<open>
  The search reaches a position of the text if every match that starts before it ends
  at or before it.
\<close>

lemma item_finditer_reaches:
  "\<forall>k<length pre. \<forall>num r. item_pattern db (drop k (pre @ tail)) = Some (num, r)
      \<longrightarrow> length tail \<le> length r
   \<Longrightarrow> \<exists>ms. item_finditer db (pre @ tail) = ms @ item_finditer db tail"
proof (induction "length pre" arbitrary: pre rule: less_induct)
  case less
  show ?case
  proof (cases pre)
    case Nil
    then have "item_finditer db (pre @ tail) = [] @ item_finditer db tail" by simp
    then show ?thesis by blast
  next
    case (Cons c p)
    show ?thesis
    proof (cases "item_pattern db (pre @ tail)")
      case None
      have hp: "\<forall>k<length p. \<forall>num r. item_pattern db (drop k (p @ tail)) = Some (num, r)
          \<longrightarrow> length tail \<le> length r"
      proof (intro allI impI)
        fix k num r
        assume "k < length p" "item_pattern db (drop k (p @ tail)) = Some (num, r)"
        with less.prems Cons have "Suc k < length pre"
          and "item_pattern db (drop (Suc k) (pre @ tail)) = Some (num, r)"
          by simp_all
        with less.prems show "length tail \<le> length r" by blast
      qed
      have "length p < length pre" using Cons by simp
      from less.hyps [OF this hp]
      obtain ms where "item_finditer db (p @ tail) = ms @ item_finditer db tail"
        by blast
      with None Cons show ?thesis
        by (simp add: item_finditer_None)
    next
      case (Some m)
      obtain num r where m: "m = (num, r)" by (cases m)
      have "0 < length pre" using Cons by simp
      with less.prems Some m have len: "length tail \<le> length r"
        by (metis drop0)
      from item_pattern_consumes [OF Some [unfolded m]] obtain q
        where q: "pre @ tail = q @ r" "q \<noteq> []"
        by blast
      define p' where "p' = drop (length q) pre"
      from q(1) have "length pre + length tail = length q + length r"
        by (metis length_append)
      with len have lq: "length q \<le> length pre"
        by simp
      from q(1) lq have r: "r = p' @ tail"
        unfolding p'_def by (metis append_eq_append_conv_if append_eq_conv_conj)
      from q(2) lq have shorter: "length p' < length pre"
        by (cases q) (auto simp: p'_def Cons)
      have hp: "\<forall>k<length p'. \<forall>num r. item_pattern db (drop k (p' @ tail)) = Some (num, r)
          \<longrightarrow> length tail \<le> length r"
      proof (intro allI impI)
        fix k num' r'
        assume k: "k < length p'" and a: "item_pattern db (drop k (p' @ tail)) = Some (num', r')"
        from q(1) r have "drop (length q + k) (pre @ tail) = drop k (p' @ tail)"
          by (metis append_eq_conv_conj drop_drop add.commute)
        moreover from k have "length q + k < length pre"
          by (simp add: p'_def)
        ultimately show "length tail \<le> length r'"
          using less.prems a by metis
      qed
      from less.hyps [OF shorter hp]
      obtain ms where "item_finditer db (p' @ tail) = ms @ item_finditer db tail"
        by blast
      with Some m r have "item_finditer db (pre @ tail) = ((num, r) # ms) @ item_finditer db tail"
        by (simp add: item_finditer_Some)
      then show ?thesis by blast
    qed
  qed
qed

lemma item_pattern_5_02:
  "item_pattern db (u ''Item 5.02: Departure of Director'' @ rest) =
     Some (u ''5.02'', dropWhile (\<lambda>c. c \<noteq> 10) rest)"
  by (simp add: item_pattern_def re_eval star_total)

text \<open>
  Whether every match of the item pattern that starts inside \<open>pre\<close>, in the text
  \<open>pre @ tail\<close>, also ends inside \<open>pre\<close>.
\<close>

fun matches_end_before :: "unicode_db \<Rightarrow> str \<Rightarrow> str \<Rightarrow> bool" where
  "matches_end_before db [] tail = True"
| "matches_end_before db (c # p) tail =
     ((case item_pattern db (c # p @ tail) of
         None \<Rightarrow> True
       | Some (num, r) \<Rightarrow> length tail \<le> length r)
      \<and> matches_end_before db p tail)"

lemma matches_end_before_drop:
  "matches_end_before db pre tail \<Longrightarrow> k < length pre \<Longrightarrow>
   item_pattern db (drop k (pre @ tail)) = Some (num, r) \<Longrightarrow> length tail \<le> length r"
proof (induction pre arbitrary: k)
  case Nil
  then show ?case by simp
next
  case (Cons c p)
  show ?case
  proof (cases k)
    case 0
    with Cons.prems show ?thesis by simp
  next
    case (Suc j)
    with Cons.prems Cons.IH [of j] show ?thesis by simp
  qed
qed

lemma list_sort_single: "f x = Inr k \<Longrightarrow> list_sort f [x] = Inr [x]"
  by (simp add: list_sort_def)

lemma sub_tags_Nil [simp]: "sub_tags [] = []"
  by (simp add: sub_tags.simps [of "[]"] tag_pattern_def)

lemma sub_partial_tag_Nil [simp]: "sub_partial_tag [] = []"
  by (simp add: sub_partial_tag.simps [of "[]"] partial_tag_pattern_def)

lemma sub_spaces_Nil [simp]: "sub_spaces [] = []"
  by (simp add: sub_spaces.simps [of "[]"] space_pattern_def)

lemma clean_context_Nil [simp]: "clean_context [] = []"
  by (simp add: clean_context_def strip_def)

text \<open>
  C2, as the code has it. Every snippet is at most 300 characters, or 300 characters and
  the three dots of the marker, so at most 303. A bundle that holds
  \<open>Item 5.02: Departure of Director\<close> followed by at least 500 characters has an entry with
  item \<open>5.02\<close>, the catalogue's description for it and the priority flag, provided every
  match of the item pattern that starts before the heading also ends before it: the
  pattern's last group takes the rest of a line, and the separator class takes line
  feeds, so a heading can fall inside the match of an earlier one.
\<close>

theorem context_bounded_and_item_5_02:
  assumes "extract_8k_items db content = Inr items"
  shows "(\<forall>x \<in> set items.
            (\<exists>body. length body \<le> 300
               \<and> (context_snippet x = body \<or> context_snippet x = body @ u ''...''))
            \<and> length (context_snippet x) \<le> 303)
         \<and> (content = pre @ u ''Item 5.02: Departure of Director'' @ rest
              \<and> 500 \<le> length rest
              \<and> matches_end_before db pre (u ''Item 5.02: Departure of Director'' @ rest)
            \<longrightarrow> (\<exists>x \<in> set items. item x = u ''5.02''
                   \<and> description x = u ''Departure/Appointment of Directors or Officers''
                   \<and> is_priority x \<and> length (context_snippet x) \<le> 303))"
proof (intro conjI ballI impI)
  fix x assume "x \<in> set items"
  from extract_8k_items_made [OF assms this] obtain r where x: "x = make_item (item x) r"
    by blast
  then have c: "context_snippet x = clean_context (take 500 r)"
    by (metis filing_item.select_convs(3) make_item_def)
  from clean_context_bound [of "take 500 r"] c
  show "\<exists>body. length body \<le> 300
          \<and> (context_snippet x = body \<or> context_snippet x = body @ u ''...'')"
    by simp
  from clean_context_length [of "take 500 r"] c
  show "length (context_snippet x) \<le> 303" by simp
next
  let ?h = "u ''Item 5.02: Departure of Director''"
  assume a: "content = pre @ ?h @ rest \<and> 500 \<le> length rest
      \<and> matches_end_before db pre (?h @ rest)"
  then have "\<forall>k<length pre. \<forall>num r. item_pattern db (drop k (pre @ (?h @ rest))) = Some (num, r)
            \<longrightarrow> length (?h @ rest) \<le> length r"
    using matches_end_before_drop by blast
  from item_finditer_reaches [OF this] obtain ms
    where "item_finditer db (pre @ (?h @ rest)) = ms @ item_finditer db (?h @ rest)"
    by blast
  with a have "(u ''5.02'', dropWhile (\<lambda>c. c \<noteq> 10) rest) \<in> set (item_finditer db content)"
    by (simp add: item_finditer_Some [OF item_pattern_5_02])
  then have "u ''5.02'' \<in> fst ` set (item_finditer db content)"
    by force
  with extract_8k_items_numbers [OF assms] have "u ''5.02'' \<in> item ` set items"
    by simp
  then obtain x where x: "x \<in> set items" "item x = u ''5.02''"
    by (auto simp: image_iff)
  from extract_8k_items_made [OF assms x(1)] x(2) obtain r where m: "x = make_item (u ''5.02'') r"
    by auto
  have d: "description (make_item (u ''5.02'') r)
      = u ''Departure/Appointment of Directors or Officers''"
    by (simp add: make_item_def ITEM_DESCRIPTIONS_def u_def)
  have p: "is_priority (make_item (u ''5.02'') r)"
    by (simp add: make_item_def PRIORITY_ITEMS_def)
  have "length (context_snippet (make_item (u ''5.02'') r)) \<le> 303"
    by (simp add: make_item_def clean_context_length)
  with x m d p show "\<exists>x \<in> set items. item x = u ''5.02''
                   \<and> description x = u ''Departure/Appointment of Directors or Officers''
                   \<and> is_priority x \<and> length (context_snippet x) \<le> 303"
    by metis
qed

theorem context_bounded_and_item_5_02_witness:
  "\<exists>items. extract_8k_items ascii_db
       (u ''Item 1.01: x'' @ [10] @ u ''Item 5.02: Departure of Director'' @ replicate 500 120)
       = Inr items
     \<and> (\<exists>x \<in> set items. item x = u ''5.02''
           \<and> description x = u ''Departure/Appointment of Directors or Officers''
           \<and> is_priority x \<and> length (context_snippet x) \<le> 303)"
proof -
  let ?pre = "u ''Item 1.01: x'' @ [10]"
  let ?rest = "replicate 500 (120::nat)"
  let ?c = "?pre @ u ''Item 5.02: Departure of Director'' @ ?rest"
  from extract_8k_items_total obtain items where e: "extract_8k_items ascii_db ?c = Inr items"
    by blast
  have h: "matches_end_before ascii_db ?pre (u ''Item 5.02: Departure of Director'' @ ?rest)"
    by (simp add: item_pattern_def re_eval)
  have "500 \<le> length ?rest"
    by simp
  with context_bounded_and_item_5_02 [OF e, of ?pre ?rest] h
  have "\<exists>x \<in> set items. item x = u ''5.02''
           \<and> description x = u ''Departure/Appointment of Directors or Officers''
           \<and> is_priority x \<and> length (context_snippet x) \<le> 303"
    by blast
  with e show ?thesis
    unfolding append_assoc by blast
qed

text \<open>
  C2 as stated fails where an earlier heading's match takes the line of the heading
  with it: here the match of \<open>Item 1.01\<close> runs over the line feed and the whole next line,
  and the only entry is the one for \<open>1.01\<close>.
\<close>

theorem item_5_02_swallowed_counterexample:
  "extract_8k_items ascii_db
     (u ''Item 1.01'' @ [10] @ u ''Item 5.02: Departure of Director'' @ replicate 500 120)
   = Inr [\<lparr>item = u ''1.01'', description = u ''Entry into Material Agreement'',
            context_snippet = [], is_priority = True\<rparr>]"
proof -
  let ?c = "u ''Item 1.01'' @ [10] @ u ''Item 5.02: Departure of Director'' @ replicate 500 120"
  have p: "item_pattern ascii_db ?c = Some (u ''1.01'', [])"
    by (simp add: item_pattern_def re_eval star_total dropWhile_replicate)
  have f: "item_finditer ascii_db ?c = [(u ''1.01'', [])]"
    using item_finditer_Some [OF p] by simp
  have "is_digit ascii_db 49" "is_digit ascii_db 48"
    by (simp_all add: is_digit_def to_decimal_def)
  with py_float_item_number [of "[49]" ascii_db "[48, 49]"]
  obtain k where k: "py_float ascii_db (u ''1.01'') = Inr k"
    by (auto simp: u_def)
  have m: "make_item (u ''1.01'') [] =
      \<lparr>item = u ''1.01'', description = u ''Entry into Material Agreement'',
        context_snippet = [], is_priority = True\<rparr>"
    by (simp add: make_item_def ITEM_DESCRIPTIONS_def PRIORITY_ITEMS_def u_def)
  have "extract_8k_items ascii_db ?c =
      list_sort (\<lambda>x. py_float ascii_db (item x)) (collect_items (item_finditer ascii_db ?c) [] {})"
    by (rule extract_8k_items_eq)
  also have "\<dots> = list_sort (\<lambda>x. py_float ascii_db (item x)) [make_item (u ''1.01'') []]"
    unfolding f by simp
  also have "\<dots> = Inr [make_item (u ''1.01'') []]"
    by (rule list_sort_single [of _ _ k]) (simp add: k)
  finally show ?thesis
    unfolding m .
qed

subsection \<open>What the clean-up leaves of markup\<close>

text \<open>
  \<open>lt_closed s\<close>: every \<open><\<close> in \<open>s\<close> is directly followed by \<open>>\<close>. \<open>lt_settled s\<close>: every
  \<open><\<close> in \<open>s\<close> is directly followed by \<open>>\<close> or has no \<open>>\<close> after it at all.
\<close>

fun lt_closed :: "str \<Rightarrow> bool" where
  "lt_closed [] = True"
| "lt_closed (c # cs) = ((c = 60 \<longrightarrow> (case cs of [] \<Rightarrow> False | d # _ \<Rightarrow> d = 62)) \<and> lt_closed cs)"

fun lt_settled :: "str \<Rightarrow> bool" where
  "lt_settled [] = True"
| "lt_settled (c # cs) =
     ((c = 60 \<longrightarrow> (case cs of [] \<Rightarrow> True | d # _ \<Rightarrow> d = 62 \<or> 62 \<notin> set cs)) \<and> lt_settled cs)"

lemma tag_pattern_eq:
  "tag_pattern s =
     (case s of [] \<Rightarrow> None
      | c # cs \<Rightarrow> if c = 60 \<and> cs \<noteq> [] \<and> hd cs \<noteq> 62 \<and> 62 \<in> set cs
                 then Some (tl (dropWhile (\<lambda>c. c \<noteq> 62) cs)) else None)"
proof (cases s)
  case Nil
  then show ?thesis by (simp add: tag_pattern_def)
next
  case (Cons c cs)
  have g: "star (\<lambda>c. c \<noteq> 62) (lit 62 Some) t = lit 62 Some (dropWhile (\<lambda>c. c \<noteq> 62) t)" for t
    by (rule star_greedy) simp
  have d: "lit 62 Some (dropWhile (\<lambda>c. c \<noteq> 62) t)
      = (if 62 \<in> set t then Some (tl (dropWhile (\<lambda>c. c \<noteq> 62) t)) else None)" for t :: str
    by (induction t) auto
  show ?thesis
  proof (cases cs)
    case Nil
    with Cons show ?thesis by (simp add: tag_pattern_def)
  next
    case (Cons d ds)
    with \<open>s = c # cs\<close> show ?thesis
      by (simp add: tag_pattern_def g d)
  qed
qed

lemma partial_tag_pattern_eq:
  "partial_tag_pattern s =
     (case s of [] \<Rightarrow> None | c # cs \<Rightarrow> if c = 60 \<and> 62 \<notin> set cs then Some [] else None)"
proof (cases s)
  case Nil
  then show ?thesis by (simp add: partial_tag_pattern_def)
next
  case (Cons c cs)
  have "star (\<lambda>c. c \<noteq> 62) (\<lambda>s. if at_end s then Some s else None) t
      = (if 62 \<in> set t then None else Some [])" for t
  proof (induction t)
    case Nil
    show ?case by (simp add: at_end_def)
  next
    case (Cons a t)
    then show ?case by (auto simp: at_end_def)
  qed
  with Cons show ?thesis by (simp add: partial_tag_pattern_def)
qed

lemma space_pattern_eq:
  "space_pattern s =
     (case s of [] \<Rightarrow> None | c # cs \<Rightarrow> if is_space c then Some (dropWhile is_space cs) else None)"
  by (cases s) (simp_all add: space_pattern_def star_total)

text \<open>The three substitutions, one character at a time.\<close>

lemma sub_tags_Cons:
  "sub_tags (c # cs) =
     (if c = 60 \<and> cs \<noteq> [] \<and> hd cs \<noteq> 62 \<and> 62 \<in> set cs
      then 32 # sub_tags (tl (dropWhile (\<lambda>c. c \<noteq> 62) cs)) else c # sub_tags cs)"
  by (simp add: sub_tags.simps [of "c # cs"] tag_pattern_eq)

lemma sub_partial_tag_Cons:
  "sub_partial_tag (c # cs) = (if c = 60 \<and> 62 \<notin> set cs then [32] else c # sub_partial_tag cs)"
  by (simp add: sub_partial_tag.simps [of "c # cs"] partial_tag_pattern_eq)

lemma sub_spaces_Cons:
  "sub_spaces (c # cs) =
     (if is_space c then 32 # sub_spaces (dropWhile is_space cs) else c # sub_spaces cs)"
  by (simp add: sub_spaces.simps [of "c # cs"] space_pattern_eq)


subsection \<open>A heading inside the match of an earlier one\<close>

lemma float_1_01: "py_float ascii_db (u ''1.01'') = Inr (False, 4548635623644201 / 4503599627370496)"
  by code_simp

lemma float_5_02: "py_float ascii_db (u ''5.02'') = Inr (False, 1413004383087493 / 281474976710656)"
  by code_simp

lemmas clean_eval = clean_context_def strip_def sub_tags_Cons sub_partial_tag_Cons sub_spaces_Cons
  is_space_def u_def

lemma ce1_finditer:
  "item_finditer db
     (u ''Item 1.01'' @ [10] @ u ''Item 5.02: A'' @ [10] @ u ''first'' @ [10] @ u ''Item 5.02: B''
        @ [10] @ u ''second'') =
   [(u ''1.01'', [10] @ u ''first'' @ [10] @ u ''Item 5.02: B'' @ [10] @ u ''second''),
    (u ''5.02'', [10] @ u ''second'')]"
  by (simp add: item_finditer_Some item_finditer_None item_pattern_def re_eval)

lemma ce1_item1:
  "make_item (u ''1.01'') ([10] @ u ''first'' @ [10] @ u ''Item 5.02: B'' @ [10] @ u ''second'') =
     \<lparr>item = u ''1.01'', description = u ''Entry into Material Agreement'',
      context_snippet = u ''first Item 5.02: B second'', is_priority = True\<rparr>"
  by (simp add: make_item_def ITEM_DESCRIPTIONS_def PRIORITY_ITEMS_def clean_eval)

lemma ce1_item2:
  "make_item (u ''5.02'') ([10] @ u ''second'') =
     \<lparr>item = u ''5.02'', description = u ''Departure/Appointment of Directors or Officers'',
      context_snippet = u ''second'', is_priority = True\<rparr>"
  by (simp add: make_item_def ITEM_DESCRIPTIONS_def PRIORITY_ITEMS_def clean_eval)

text \<open>
  C1 as stated fails where the first place a heading is written lies inside the match of
  an earlier heading. Here \<open>Item 5.02\<close> is written twice; the match of \<open>Item 1.01\<close> runs over
  the line feed and the line \<open>Item 5.02: A\<close>, the search resumes after it, and the entry
  for \<open>5.02\<close> is built from the second place, with the snippet \<open>second\<close>.
\<close>

theorem first_occurrence_swallowed_counterexample:
  "extract_8k_items ascii_db
     (u ''Item 1.01'' @ [10] @ u ''Item 5.02: A'' @ [10] @ u ''first'' @ [10] @ u ''Item 5.02: B''
        @ [10] @ u ''second'') =
   Inr [\<lparr>item = u ''1.01'', description = u ''Entry into Material Agreement'',
          context_snippet = u ''first Item 5.02: B second'', is_priority = True\<rparr>,
        \<lparr>item = u ''5.02'', description = u ''Departure/Appointment of Directors or Officers'',
          context_snippet = u ''second'', is_priority = True\<rparr>]"
proof -
  let ?c = "u ''Item 1.01'' @ [10] @ u ''Item 5.02: A'' @ [10] @ u ''first'' @ [10]
      @ u ''Item 5.02: B'' @ [10] @ u ''second''"
  let ?x1 = "make_item (u ''1.01'') ([10] @ u ''first'' @ [10] @ u ''Item 5.02: B'' @ [10] @ u ''second'')"
  let ?x2 = "make_item (u ''5.02'') ([10] @ u ''second'')"
  have "extract_8k_items ascii_db ?c =
      list_sort (\<lambda>x. py_float ascii_db (item x)) (collect_items (item_finditer ascii_db ?c) [] {})"
    by (rule extract_8k_items_eq)
  also have "\<dots> = list_sort (\<lambda>x. py_float ascii_db (item x)) [?x1, ?x2]"
    unfolding ce1_finditer by (simp add: u_def)
  also have "\<dots> = Inr [?x1, ?x2]"
    by (simp add: list_sort_def float_1_01 float_5_02)
  finally show ?thesis
    unfolding ce1_item1 ce1_item2 .
qed

section \<open>Requests, responses and the daily index\<close>

text \<open>
  A value of the bulk identifier feed after \<open>resp.json()\<close>: a string, an integer, a truth
  value or \<open>null\<close>. An entry of the feed is a dictionary from field names to such values.
\<close>

datatype json_value = JString str | JInt int | JBool bool | JNull







record filing =
  cik :: str
  company_name :: str
  form_type :: str
  date_filed :: str
  filename :: str
  accession :: str
  url :: str
  raw_url :: str
  ticker :: str
  items :: "filing_item list option"




text \<open>\<open>s.split(sep)\<close> for a separator of one character; \<open>cur\<close> is the part read so far.\<close>

fun split_from :: "nat \<Rightarrow> str \<Rightarrow> str \<Rightarrow> str list" where
  "split_from sep cur [] = [cur]"
| "split_from sep cur (c # cs) =
     (if c = sep then cur # split_from sep [] cs else split_from sep (cur @ [c]) cs)"

definition split :: "str \<Rightarrow> nat \<Rightarrow> str list" where
  "split s sep = split_from sep [] s"

text \<open>
  \<open>s.replace(old, new)\<close>: every occurrence of \<open>old\<close>, found from left to right without
  overlap, becomes \<open>new\<close>; for the empty \<open>old\<close>, \<open>new\<close> goes before every character and at
  the end.
\<close>

lemma startswith_shorter:
  "old \<noteq> [] \<Longrightarrow> startswith s old \<Longrightarrow> length s - length old < length s"
proof -
  assume a: "old \<noteq> []" "startswith s old"
  then have "length (take (length old) s) = length old"
    by (simp add: startswith_def)
  then have "length old \<le> length s"
    by simp
  moreover from a(1) have "0 < length old"
    by (cases old) simp_all
  ultimately show ?thesis by arith
qed

function str_replace :: "str \<Rightarrow> str \<Rightarrow> str \<Rightarrow> str" where
  "str_replace s old new =
     (if old = [] then new @ concat (map (\<lambda>c. c # new) s)
      else if startswith s old then new @ str_replace (drop (length old) s) old new
      else (case s of [] \<Rightarrow> [] | c # cs \<Rightarrow> c # str_replace cs old new))"
  by pat_completeness auto
termination
  by (relation "measure (\<lambda>(s, old, new). length s)") (auto simp: startswith_shorter)

declare str_replace.simps [simp del]





subsection \<open>The status of a response\<close>




subsection \<open>The records of the index\<close>



lemma str_replace_Nil [simp]: "str_replace [] (c # old) new = []"
  by (simp add: str_replace.simps [of "[]"] startswith_def)









end
